theory Spec2Isabelle
  imports Complex_Main "HOL-Library.Word" "HOL-Library.Multiset"
begin

section \<open>JavaScript strings\<close>

text \<open>
  A JavaScript string is a sequence of UTF-16 code units; \<open>length\<close>, \<open>substring\<close>,
  \<open>indexOf\<close>, \<open>slice\<close> and \<open>===\<close> all work on code units. An ASCII literal of the source
  is written \<open>lit ''...''\<close>; other code units are given by their number.
\<close>

type_synonym jsstring = "16 word list"

definition lit :: "string \<Rightarrow> jsstring" where
  "lit s = map of_char s"

text \<open>
  The characters that \<open>String.prototype.trim\<close> strips and that \<open>\s\<close> matches in a regular
  expression: WhiteSpace and LineTerminator of ECMAScript (all of them single code units).
\<close>

definition isWhiteSpace :: "16 word \<Rightarrow> bool" where
  "isWhiteSpace c \<longleftrightarrow>
     (0x0009 \<le> c \<and> c \<le> 0x000D) \<or> c = 0x0020 \<or> c = 0x00A0 \<or> c = 0x1680 \<or>
     (0x2000 \<le> c \<and> c \<le> 0x200A) \<or> c = 0x2028 \<or> c = 0x2029 \<or> c = 0x202F \<or>
     c = 0x205F \<or> c = 0x3000 \<or> c = 0xFEFF"

definition trim :: "jsstring \<Rightarrow> jsstring" where
  "trim s = rev (dropWhile isWhiteSpace (rev (dropWhile isWhiteSpace s)))"

text \<open>
  \<open>String.prototype.toLowerCase\<close> applies the Unicode case mapping, a table of the
  JavaScript engine and not of this program. Every function below that lower-cases takes
  the mapping as its first argument \<open>lc\<close>. On strings of ASCII code units the mapping is
  \<open>toLowerCaseAscii\<close>: the letters A to Z move to a to z and nothing else changes.
\<close>

definition isAscii :: "jsstring \<Rightarrow> bool" where
  "isAscii s \<longleftrightarrow> list_all (\<lambda>c. c < 0x0080) s"

definition lowerUnit :: "16 word \<Rightarrow> 16 word" where
  "lowerUnit c = (if 0x0041 \<le> c \<and> c \<le> 0x005A then c + 0x0020 else c)"

definition toLowerCaseAscii :: "jsstring \<Rightarrow> jsstring" where
  "toLowerCaseAscii s = map lowerUnit s"

section \<open>Navigation history (App)\<close>

text \<open>
  The three state cells of \<open>App\<close> that make up the navigation store. \<open>currentTopic\<close> is
  \<open>None\<close> when the cell holds \<open>undefined\<close>, which is what \<open>history[newIndex]\<close> yields for an
  index outside the array.
\<close>

record nav =
  history :: "jsstring list"
  historyIndex :: int
  currentTopic :: "jsstring option"

datatype error = TypeError

definition initialNav :: nav where
  "initialNav = \<lparr>history = [], historyIndex = - 1, currentTopic = Some []\<rparr>"

text \<open>\<open>xs[i]\<close>: the element, or \<open>undefined\<close> outside the array.\<close>

definition jsIndex :: "'a list \<Rightarrow> int \<Rightarrow> 'a option" where
  "jsIndex xs i = (if 0 \<le> i \<and> i < int (length xs) then Some (xs ! nat i) else None)"

text \<open>\<open>xs.slice(0, e)\<close>: a negative end counts from the end of the array.\<close>

definition slice0 :: "'a list \<Rightarrow> int \<Rightarrow> 'a list" where
  "slice0 xs e =
     (let len = int (length xs);
          k = (if e < 0 then max (len + e) 0 else min e len)
      in take (nat k) xs)"

text \<open>
  \<open>changeTopic\<close>: the conjunction short-circuits, so an empty trimmed topic returns before
  \<open>currentTopic.toLowerCase()\<close> is evaluated; on \<open>undefined\<close> that call raises a TypeError.
\<close>

definition changeTopic :: "(jsstring \<Rightarrow> jsstring) \<Rightarrow> jsstring \<Rightarrow> nav \<Rightarrow> error + nav" where
  "changeTopic lc newTopic s =
     (let trimmedTopic = trim newTopic in
      if trimmedTopic = [] then Inr s
      else case currentTopic s of
             None \<Rightarrow> Inl TypeError
           | Some cur \<Rightarrow>
               if lc trimmedTopic \<noteq> lc cur then
                 (let newHistory = slice0 (history s) (historyIndex s + 1) @ [trimmedTopic]
                  in Inr (s\<lparr>history := newHistory,
                            historyIndex := int (length newHistory) - 1,
                            currentTopic := Some trimmedTopic\<rparr>))
               else Inr s)"

definition handlePrevious :: "nav \<Rightarrow> nav" where
  "handlePrevious s =
     (if historyIndex s > 0 then
        (let newIndex = historyIndex s - 1
         in s\<lparr>historyIndex := newIndex, currentTopic := jsIndex (history s) newIndex\<rparr>)
      else s)"

definition handleNext :: "nav \<Rightarrow> nav" where
  "handleNext s =
     (if historyIndex s < int (length (history s)) - 1 then
        (let newIndex = historyIndex s + 1
         in s\<lparr>historyIndex := newIndex, currentTopic := jsIndex (history s) newIndex\<rparr>)
      else s)"

text \<open>A user action on the navigation store, and a run of actions from a state.\<close>

datatype action = Push jsstring | Back | Forward

fun step :: "(jsstring \<Rightarrow> jsstring) \<Rightarrow> action \<Rightarrow> nav \<Rightarrow> error + nav" where
  "step lc (Push t) s = changeTopic lc t s"
| "step lc Back s = Inr (handlePrevious s)"
| "step lc Forward s = Inr (handleNext s)"

fun run :: "(jsstring \<Rightarrow> jsstring) \<Rightarrow> action list \<Rightarrow> nav \<Rightarrow> error + nav" where
  "run lc [] s = Inr s"
| "run lc (a # as) s = (case step lc a s of Inl e \<Rightarrow> Inl e | Inr s' \<Rightarrow> run lc as s')"

text \<open>The cursor invariant of the data model, and what holds of every reachable state.\<close>

definition cursorInv :: "nav \<Rightarrow> bool" where
  "cursorInv s \<longleftrightarrow> - 1 \<le> historyIndex s \<and> historyIndex s \<le> int (length (history s)) - 1"

definition navInv :: "nav \<Rightarrow> bool" where
  "navInv s \<longleftrightarrow>
     cursorInv s \<and>
     currentTopic s = (if historyIndex s = - 1 then Some [] else jsIndex (history s) (historyIndex s))"

subsection \<open>The random topic\<close>

definition PREDEFINED_WORDS :: "jsstring list" where
  "PREDEFINED_WORDS = map lit
    [''Balance'', ''Harmony'', ''Discord'', ''Unity'', ''Fragmentation'', ''Clarity'',
     ''Ambiguity'', ''Presence'', ''Absence'', ''Creation'', ''Destruction'', ''Light'',
     ''Shadow'', ''Beginning'', ''Ending'', ''Rising'', ''Falling'', ''Connection'',
     ''Isolation'', ''Hope'', ''Despair'', ''Order and chaos'', ''Light and shadow'',
     ''Sound and silence'', ''Form and formlessness'', ''Being and nonbeing'',
     ''Presence and absence'', ''Motion and stillness'', ''Unity and multiplicity'',
     ''Finite and infinite'', ''Sacred and profane'', ''Memory and forgetting'',
     ''Question and answer'', ''Search and discovery'', ''Journey and destination'',
     ''Dream and reality'', ''Time and eternity'', ''Self and other'',
     ''Known and unknown'', ''Spoken and unspoken'', ''Visible and invisible'', ''Zigzag'',
     ''Waves'', ''Spiral'', ''Bounce'', ''Slant'', ''Drip'', ''Stretch'', ''Squeeze'',
     ''Float'', ''Fall'', ''Spin'', ''Melt'', ''Rise'', ''Twist'', ''Explode'', ''Stack'',
     ''Mirror'', ''Echo'', ''Vibrate'', ''Gravity'', ''Friction'', ''Momentum'',
     ''Inertia'', ''Turbulence'', ''Pressure'', ''Tension'', ''Oscillate'', ''Fractal'',
     ''Quantum'', ''Entropy'', ''Vortex'', ''Resonance'', ''Equilibrium'', ''Centrifuge'',
     ''Elastic'', ''Viscous'', ''Refract'', ''Diffuse'', ''Cascade'', ''Levitate'',
     ''Magnetize'', ''Polarize'', ''Accelerate'', ''Compress'', ''Undulate'', ''Liminal'',
     ''Ephemeral'', ''Paradox'', ''Zeitgeist'', ''Metamorphosis'', ''Synesthesia'',
     ''Recursion'', ''Emergence'', ''Dialectic'', ''Apophenia'', ''Limbo'', ''Flux'',
     ''Sublime'', ''Uncanny'', ''Palimpsest'', ''Chimera'', ''Void'', ''Transcend'',
     ''Ineffable'', ''Qualia'', ''Gestalt'', ''Simulacra'', ''Abyssal'', ''Existential'',
     ''Nihilism'', ''Solipsism'', ''Phenomenology'', ''Hermeneutics'', ''Deconstruction'',
     ''Postmodern'', ''Absurdism'', ''Catharsis'', ''Epiphany'', ''Melancholy'',
     ''Nostalgia'', ''Longing'', ''Reverie'', ''Pathos'', ''Ethos'', ''Logos'', ''Mythos'',
     ''Anamnesis'', ''Intertextuality'', ''Metafiction'', ''Stream'', ''Lacuna'',
     ''Caesura'', ''Enjambment'']"

text \<open>\<open>[...new Set(xs)]\<close>: the elements of \<open>xs\<close> in the order of their first occurrence.\<close>

definition setOrder :: "'a list \<Rightarrow> 'a list" where
  "setOrder xs = foldl (\<lambda>seen x. if x \<in> set seen then seen else seen @ [x]) [] xs"

definition UNIQUE_WORDS :: "jsstring list" where
  "UNIQUE_WORDS = setOrder PREDEFINED_WORDS"

text \<open>\<open>xs.findIndex(p)\<close>: the index of the first element that satisfies \<open>p\<close>, or \<open>-1\<close>.\<close>

fun findIndex :: "('a \<Rightarrow> bool) \<Rightarrow> 'a list \<Rightarrow> int" where
  "findIndex p [] = - 1"
| "findIndex p (x # xs) =
     (if p x then 0 else (let i = findIndex p xs in if i = - 1 then - 1 else i + 1))"

text \<open>
  \<open>Math.random()\<close> returns a binary64 number that is at least 0 and less than 1. These
  numbers are exactly the quotients \<open>m / 2 ^ e\<close> of naturals with \<open>m < 2 ^ 53\<close>,
  \<open>e \<le> 1074\<close> and \<open>m < 2 ^ e\<close>; the pair \<open>m\<close>, \<open>e\<close> stands for the number.
\<close>

definition isRandomValue :: "nat \<Rightarrow> nat \<Rightarrow> bool" where
  "isRandomValue m e \<longleftrightarrow> m < 2 ^ 53 \<and> e \<le> 1074 \<and> m < 2 ^ e"

text \<open>The number of binary digits of a natural number.\<close>

fun bitLength :: "nat \<Rightarrow> nat" where
  "bitLength n = (if n = 0 then 0 else Suc (bitLength (n div 2)))"

declare bitLength.simps [simp del]

text \<open>
  \<open>Math.floor(Math.random() * n)\<close> for the array length \<open>n\<close>. The multiplication is the one
  of binary64: the exact product \<open>n * m / 2 ^ e\<close> rounded to the nearest number with a
  significand of 53 binary digits, a tie going to the even significand. When \<open>n * m\<close> has
  at most 53 digits the exact product is such a number (its exponent is not below that
  of the subnormal numbers, as \<open>e \<le> 1074\<close>). Otherwise the lowest \<open>digits - 53\<close> digits of
  \<open>n * m\<close> are rounded away. The product is below \<open>2 ^ 53\<close>, so nothing overflows, and
  \<open>Math.floor\<close> is exact.
\<close>

definition floorOfProduct :: "nat \<Rightarrow> nat \<Rightarrow> nat \<Rightarrow> nat" where
  "floorOfProduct m e n =
     (let exact = n * m;
          digits = bitLength exact
      in if digits \<le> 53 then exact div 2 ^ e
         else
           (let sh = digits - 53;
                q = exact div 2 ^ sh;
                r = exact mod 2 ^ sh;
                half = 2 ^ (sh - 1);
                rounded = (if half < r \<or> (r = half \<and> odd q) then q + 1 else q) * 2 ^ sh
            in rounded div 2 ^ e))"

text \<open>
  \<open>handleRandom\<close>, with the value of \<open>Math.random()\<close> given by \<open>m\<close> and \<open>e\<close>. The setters of
  the display state (loading flag, error, texts, links, art) do not touch the navigation
  store and are left out. Reading past the end of the word list gives \<open>undefined\<close>, and a
  method call on \<open>undefined\<close> raises a TypeError. The dividend of \<open>%\<close> is never
  negative here, so the remainder of JavaScript is \<open>mod\<close>.
\<close>

definition handleRandom :: "(jsstring \<Rightarrow> jsstring) \<Rightarrow> nat \<Rightarrow> nat \<Rightarrow> nav \<Rightarrow> error + nav" where
  "handleRandom lc m e s =
     (case jsIndex UNIQUE_WORDS (int (floorOfProduct m e (length UNIQUE_WORDS))) of
        None \<Rightarrow> Inl TypeError
      | Some randomWord \<Rightarrow>
          (case currentTopic s of
             None \<Rightarrow> Inl TypeError
           | Some cur \<Rightarrow>
               if lc randomWord = lc cur then
                 (let currentIndex = findIndex (\<lambda>w. lc w = lc randomWord) UNIQUE_WORDS;
                      nextIndex = (currentIndex + 1) mod int (length UNIQUE_WORDS)
                  in case jsIndex UNIQUE_WORDS nextIndex of
                       None \<Rightarrow> Inl TypeError
                     | Some nextWord \<Rightarrow> changeTopic lc nextWord s)
               else changeTopic lc randomWord s))"

subsection \<open>The fallback art\<close>

record AsciiArtData =
  art :: jsstring
  text_opt :: "jsstring option"

text \<open>
  \<open>createFallbackArt\<close>. The box is drawn with U+250C, U+2500, U+2510 (top), U+2502
  (sides), U+2514, U+2500, U+2518 (bottom); the lines are joined by U+000A.
\<close>

definition createFallbackArt :: "jsstring \<Rightarrow> AsciiArtData" where
  "createFallbackArt topic =
     (let displayableTopic = (if length topic > 20 then take 17 topic @ lit ''...'' else topic);
          paddedTopic = lit '' '' @ displayableTopic @ lit '' '';
          topBorder = [0x250C] @ replicate (length paddedTopic) 0x2500 @ [0x2510];
          middle = [0x2502] @ paddedTopic @ [0x2502];
          bottomBorder = [0x2514] @ replicate (length paddedTopic) 0x2500 @ [0x2518]
      in \<lparr>art = topBorder @ [0x000A] @ middle @ [0x000A] @ bottomBorder, text_opt = None\<rparr>)"

text \<open>The topic as the box shows it (\<open>displayableTopic\<close>).\<close>

definition displayableTopic :: "jsstring \<Rightarrow> jsstring" where
  "displayableTopic topic = (if length topic > 20 then take 17 topic @ lit ''...'' else topic)"

text \<open>The lines of a string: the pieces between the line feeds.\<close>

fun splitLines :: "jsstring \<Rightarrow> jsstring list" where
  "splitLines [] = [[]]"
| "splitLines (c # s) =
     (if c = 0x000A then [] # splitLines s
      else case splitLines s of [] \<Rightarrow> [[c]] | l # ls \<Rightarrow> (c # l) # ls)"

section \<open>Structured answer (geminiService)\<close>

text \<open>
  A value produced by \<open>JSON.parse\<close>. The members of an object are kept in the order of the
  text; of members with the same name the last one counts. A number is never NaN; it is
  falsy exactly when it is zero.
\<close>

datatype json =
    JNull
  | JBool bool
  | JNumber real
  | JString jsstring
  | JArray "json list"
  | JObject "(jsstring \<times> json) list"

text \<open>
  What the environment hands to the code after its request: the request is rejected,
  \<open>response.text\<close> is \<open>undefined\<close>, \<open>JSON.parse\<close> rejects the trimmed text, or it returns a
  value.
\<close>

datatype response = Rejected | NoText | Unparsable | Parsed json

datatype cause = RequestFailed | TextUndefined | SyntaxError | PropertyOfNull | InvalidStructure

datatype serviceError = ApiKeyNotConfigured | CouldNotGenerateContent jsstring cause

text \<open>
  \<open>v.name\<close> for one of the names \<open>explanation\<close>, \<open>suggestion\<close>, \<open>links\<close> on a value other than
  \<open>null\<close>: an own member of an object, otherwise \<open>undefined\<close> (\<open>None\<close>); no prototype has a
  property of these names.
\<close>

fun getMember :: "json \<Rightarrow> jsstring \<Rightarrow> json option" where
  "getMember (JObject members) name = map_of (rev members) name"
| "getMember v name = None"

fun truthy :: "json option \<Rightarrow> bool" where
  "truthy None = False"
| "truthy (Some JNull) = False"
| "truthy (Some (JBool b)) = b"
| "truthy (Some (JNumber x)) = (x \<noteq> 0)"
| "truthy (Some (JString s)) = (s \<noteq> [])"
| "truthy (Some (JArray xs)) = True"
| "truthy (Some (JObject members)) = True"

fun isArray :: "json option \<Rightarrow> bool" where
  "isArray (Some (JArray xs)) = True"
| "isArray v = False"

text \<open>
  \<open>getStructuredAnswer\<close>: the check of the API key stands before the \<open>try\<close>; every error
  raised inside it is caught and raised again as one error naming the topic. The first
  property read on \<open>null\<close> raises a TypeError.
\<close>

definition getStructuredAnswer :: "bool \<Rightarrow> jsstring \<Rightarrow> response \<Rightarrow> serviceError + json" where
  "getStructuredAnswer apiKeySet topic resp =
     (if \<not> apiKeySet then Inl ApiKeyNotConfigured
      else case resp of
        Rejected \<Rightarrow> Inl (CouldNotGenerateContent topic RequestFailed)
      | NoText \<Rightarrow> Inl (CouldNotGenerateContent topic TextUndefined)
      | Unparsable \<Rightarrow> Inl (CouldNotGenerateContent topic SyntaxError)
      | Parsed parsedData \<Rightarrow>
          if parsedData = JNull then Inl (CouldNotGenerateContent topic PropertyOfNull)
          else if \<not> truthy (getMember parsedData (lit ''explanation'')) \<or>
                  \<not> truthy (getMember parsedData (lit ''suggestion'')) \<or>
                  \<not> isArray (getMember parsedData (lit ''links''))
               then Inl (CouldNotGenerateContent topic InvalidStructure)
               else Inr parsedData)"

text \<open>
  The shape the specification requires of a response: an object with a string
  \<open>explanation\<close>, a string \<open>suggestion\<close> and an array \<open>links\<close> of three to five objects, each
  with a string \<open>title\<close> and a string \<open>url\<close>.
\<close>

fun isString :: "json option \<Rightarrow> bool" where
  "isString (Some (JString s)) = True"
| "isString v = False"

definition isLinkShape :: "json \<Rightarrow> bool" where
  "isLinkShape v \<longleftrightarrow> isString (getMember v (lit ''title'')) \<and> isString (getMember v (lit ''url''))"

text \<open>A response of three links that have a title and no URL.\<close>

definition answerWithoutUrls :: json where
  "answerWithoutUrls = JObject
     [(lit ''explanation'', JString (lit ''x'')),
      (lit ''suggestion'', JString (lit ''y'')),
      (lit ''links'', JArray [JObject [(lit ''title'', JString (lit ''a''))],
                              JObject [(lit ''title'', JString (lit ''b''))],
                              JObject [(lit ''title'', JString (lit ''c''))]])]"

definition hasRequiredShape :: "json \<Rightarrow> bool" where
  "hasRequiredShape v \<longleftrightarrow>
     isString (getMember v (lit ''explanation'')) \<and>
     isString (getMember v (lit ''suggestion'')) \<and>
     (case getMember v (lit ''links'') of
        Some (JArray ls) \<Rightarrow> 3 \<le> length ls \<and> length ls \<le> 5 \<and> list_all isLinkShape ls
      | _ \<Rightarrow> False)"

section \<open>Interactive text renderer (ContentDisplay)\<close>

record link =
  url :: jsstring
  title :: jsstring

text \<open>
  \<open>s.indexOf(t)\<close>: the least position at which \<open>t\<close> occurs in \<open>s\<close>; \<open>None\<close> stands for the
  result \<open>-1\<close>. The empty string occurs at position 0 of every string.
\<close>

fun indexOf :: "jsstring \<Rightarrow> jsstring \<Rightarrow> nat option" where
  "indexOf [] t = (if t = [] then Some 0 else None)"
| "indexOf (c # s) t =
     (if take (length t) (c # s) = t then Some 0
      else case indexOf s t of None \<Rightarrow> None | Some i \<Rightarrow> Some (Suc i))"

text \<open>
  An entry of \<open>contentParts\<close>: a string still to be processed, or the anchor element made
  for a link.
\<close>

datatype part = Str jsstring | Elem link

text \<open>
  The callback given to \<open>flatMap\<close> for one link, run over the parts from left to right;
  the flag is the variable \<open>linkPlaced\<close>. The call \<open>onLinkUsed(link.url)\<close> only notifies the
  parent component and does not change what this render returns; it is left out.
\<close>

fun embedLink :: "link \<Rightarrow> bool \<Rightarrow> part list \<Rightarrow> part list" where
  "embedLink l linkPlaced [] = []"
| "embedLink l linkPlaced (Elem e # ps) = Elem e # embedLink l linkPlaced ps"
| "embedLink l linkPlaced (Str s # ps) =
     (if linkPlaced then Str s # embedLink l linkPlaced ps
      else case indexOf s (title l) of
             None \<Rightarrow> Str s # embedLink l linkPlaced ps
           | Some index \<Rightarrow>
               (let beforeText = take index s;
                    afterText = drop (index + length (title l)) s
                in (if beforeText \<noteq> [] then [Str beforeText] else []) @ [Elem l] @
                   (if afterText \<noteq> [] then [Str afterText] else []) @ embedLink l True ps))"

text \<open>
  \<open>[...links].sort((a, b) => b.title.length - a.title.length)\<close>: a stable sort by title
  length, longest first.
\<close>

definition sortLinks :: "link list \<Rightarrow> link list" where
  "sortLinks links = sort_key (\<lambda>l. - int (length (title l))) links"

text \<open>The loop of the first pass over the sorted links.\<close>

fun embedLinks :: "jsstring set \<Rightarrow> link list \<Rightarrow> part list \<Rightarrow> part list" where
  "embedLinks usedLinks [] contentParts = contentParts"
| "embedLinks usedLinks (l # ls) contentParts =
     (if url l \<in> usedLinks then embedLinks usedLinks ls contentParts
      else embedLinks usedLinks ls (embedLink l False contentParts))"

definition firstPass :: "jsstring \<Rightarrow> link list \<Rightarrow> jsstring set \<Rightarrow> part list" where
  "firstPass content links usedLinks = embedLinks usedLinks (sortLinks links) [Str content]"

text \<open>
  The rendered elements: a fragment with children, a button that calls \<open>onWordClick\<close> with
  its first field and shows its second, an anchor with its \<open>href\<close> and its text, and text.
\<close>

datatype node =
    TextNode jsstring
  | Button jsstring jsstring
  | Anchor jsstring jsstring
  | Fragment "node list"

fun visibleText :: "node \<Rightarrow> jsstring" where
  "visibleText (TextNode s) = s"
| "visibleText (Button w shown) = shown"
| "visibleText (Anchor href shown) = shown"
| "visibleText (Fragment ns) = concat (map visibleText ns)"

definition STOP_WORDS :: "jsstring set" where
  "STOP_WORDS = set (map lit
     [''a'', ''about'', ''an'', ''and'', ''are'', ''as'', ''at'', ''be'', ''by'', ''for'', ''from'',
      ''how'', ''i'', ''in'', ''is'', ''it'', ''of'', ''on'', ''or'', ''that'', ''the'', ''this'',
      ''to'', ''was'', ''what'', ''when'', ''where'', ''who'', ''will'', ''with''])"

definition isPunctuation :: "16 word \<Rightarrow> bool" where
  "isPunctuation c \<longleftrightarrow> c \<in> set (lit ''.,!?;:'')"

text \<open>
  \<open>text.split(/(\s+)/)\<close>: the text is cut at every maximal run of whitespace, and the runs
  are kept (the capture group), so the result alternates between strings without
  whitespace and whitespace runs; the first and the last string may be empty.
\<close>

function splitWhitespace :: "jsstring \<Rightarrow> jsstring list" where
  "splitWhitespace s =
     (let seg = takeWhile (\<lambda>c. \<not> isWhiteSpace c) s;
          rest = dropWhile (\<lambda>c. \<not> isWhiteSpace c) s
      in if rest = [] then [seg]
         else seg # takeWhile isWhiteSpace rest # splitWhitespace (dropWhile isWhiteSpace rest))"
  by pat_completeness auto
termination
proof (relation "measure length")
  fix s :: jsstring and seg rest
  assume rest: "rest = dropWhile (\<lambda>c. \<not> isWhiteSpace c) s" and ne: "rest \<noteq> []"
  from ne rest have "isWhiteSpace (hd rest)"
    using hd_dropWhile [of "\<lambda>c. \<not> isWhiteSpace c" s] by simp
  with ne have "length (dropWhile isWhiteSpace rest) < length rest"
    by (cases rest) (simp_all add: less_Suc_eq_le length_dropWhile_le)
  moreover have "length rest \<le> length s"
    by (simp add: rest length_dropWhile_le)
  ultimately show "(dropWhile isWhiteSpace rest, s) \<in> measure length"
    by simp
qed simp

declare splitWhitespace.simps [simp del]

text \<open>
  \<open>part.match(/[.,!?;:]+$/)\<close>: the search tries the start positions from left to right; at a
  position the match succeeds when everything from there to the end of the string is
  punctuation, and at least one character. \<open>None\<close> is the result \<open>null\<close>.
\<close>

fun matchPunctuation :: "jsstring \<Rightarrow> jsstring option" where
  "matchPunctuation [] = None"
| "matchPunctuation (c # s) =
     (if list_all isPunctuation (c # s) then Some (c # s) else matchPunctuation s)"

text \<open>The body of \<open>parts.forEach\<close> for one part, and the loop pushing onto \<open>elements\<close>.\<close>

definition renderPart :: "(jsstring \<Rightarrow> jsstring) \<Rightarrow> jsstring \<Rightarrow> node" where
  "renderPart lc part =
     (if trim part = [] then Fragment [TextNode part]
      else
        (let punctuation = (case matchPunctuation part of Some m \<Rightarrow> m | None \<Rightarrow> []);
             word = (if punctuation \<noteq> [] then slice0 part (- int (length punctuation)) else part)
         in if lc word \<in> STOP_WORDS \<or> word = [] then Fragment [TextNode part]
            else Fragment [Button word word, TextNode punctuation]))"

definition renderInteractiveWords :: "(jsstring \<Rightarrow> jsstring) \<Rightarrow> jsstring \<Rightarrow> node list" where
  "renderInteractiveWords lc text =
     foldl (\<lambda>elements part. elements @ [renderPart lc part]) [] (splitWhitespace text)"

text \<open>
  What the tokenization is measured against. A list of strings is the split of a text at
  its whitespace runs when it alternates between strings free of whitespace and
  non-empty strings of whitespace only, begins and ends with a string free of
  whitespace, and has an empty string in the first or the last place at most.
\<close>

fun isWhitespaceSplit :: "jsstring list \<Rightarrow> bool" where
  "isWhitespaceSplit [] = False"
| "isWhitespaceSplit [t] = list_all (\<lambda>c. \<not> isWhiteSpace c) t"
| "isWhitespaceSplit (t # w # rest) =
     (list_all (\<lambda>c. \<not> isWhiteSpace c) t \<and> w \<noteq> [] \<and> list_all isWhiteSpace w \<and>
      isWhitespaceSplit rest \<and> (length rest = 1 \<or> hd rest \<noteq> []))"

text \<open>
  The punctuation split off a token is its longest end piece made of the characters
  \<open>.,!?;:\<close>; the word is what stands before it. A part that is whitespace, or whose word
  is empty or a stop word when lower-cased, is plain text; any other part is a button
  on the word, followed by the punctuation.
\<close>

definition specPunctuation :: "jsstring \<Rightarrow> jsstring" where
  "specPunctuation part = rev (takeWhile isPunctuation (rev part))"

definition specWord :: "jsstring \<Rightarrow> jsstring" where
  "specWord part = rev (dropWhile isPunctuation (rev part))"

definition specElement :: "(jsstring \<Rightarrow> jsstring) \<Rightarrow> jsstring \<Rightarrow> node" where
  "specElement lc part =
     (if list_all isWhiteSpace part \<or> specWord part = [] \<or> lc (specWord part) \<in> STOP_WORDS
      then Fragment [TextNode part]
      else Fragment [Button (specWord part) (specWord part), TextNode (specPunctuation part)])"

text \<open>The second pass, and the whole of \<open>InteractiveContent\<close>.\<close>

fun renderContentPart :: "(jsstring \<Rightarrow> jsstring) \<Rightarrow> part \<Rightarrow> node list" where
  "renderContentPart lc (Str s) = renderInteractiveWords lc s"
| "renderContentPart lc (Elem l) = [Anchor (url l) (title l)]"

definition InteractiveContent ::
  "(jsstring \<Rightarrow> jsstring) \<Rightarrow> jsstring \<Rightarrow> link list \<Rightarrow> jsstring set \<Rightarrow> node list" where
  "InteractiveContent lc content links usedLinks =
     concat (map (renderContentPart lc) (firstPass content links usedLinks))"

text \<open>The text a part of \<open>contentParts\<close> shows: the string itself, or the title in the anchor.\<close>

fun partText :: "part \<Rightarrow> jsstring" where
  "partText (Str s) = s"
| "partText (Elem l) = title l"





text \<open>Two links for the worked examples.\<close>

definition linkAI :: link where
  "linkAI = \<lparr>url = lit ''u1'', title = lit ''AI''\<rparr>"

definition linkArt :: link where
  "linkArt = \<lparr>url = lit ''u2'', title = lit ''Artificial Intelligence''\<rparr>"

section \<open>Properties of the navigation history\<close>

lemma slice0_take: "- 1 \<le> e \<Longrightarrow> slice0 xs (e + 1) = take (nat (e + 1)) xs"
  by (auto simp: slice0_def Let_def min_def)

lemma changeTopic_navInv:
  assumes "navInv s"
  shows "\<exists>s'. changeTopic lc t s = Inr s' \<and> navInv s'"
proof -
  from assms obtain cur where cur: "currentTopic s = Some cur"
    by (auto simp: navInv_def cursorInv_def jsIndex_def split: if_splits)
  from assms have lo: "- 1 \<le> historyIndex s"
    by (simp add: navInv_def cursorInv_def)
  show ?thesis
    using assms cur lo
    by (auto simp: changeTopic_def Let_def slice0_take navInv_def cursorInv_def jsIndex_def nth_append)
qed

lemma handlePrevious_navInv: "navInv s \<Longrightarrow> navInv (handlePrevious s)"
  by (auto simp: handlePrevious_def Let_def navInv_def cursorInv_def jsIndex_def)

lemma handleNext_navInv: "navInv s \<Longrightarrow> navInv (handleNext s)"
  by (auto simp: handleNext_def Let_def navInv_def cursorInv_def jsIndex_def)

lemma step_navInv: "navInv s \<Longrightarrow> \<exists>s'. step lc a s = Inr s' \<and> navInv s'"
  by (cases a) (simp_all add: changeTopic_navInv handlePrevious_navInv handleNext_navInv)

lemma run_navInv: "navInv s \<Longrightarrow> \<exists>s'. run lc as s = Inr s' \<and> navInv s'"
proof (induction as arbitrary: s)
  case Nil
  then show ?case by simp
next
  case (Cons a as)
  from step_navInv [OF Cons.prems, of lc a]
  obtain s1 where s1: "step lc a s = Inr s1" "navInv s1" by blast
  from Cons.IH [OF s1(2)] s1(1) show ?case by simp
qed

lemma initialNav_navInv: "navInv initialNav"
  by (simp add: navInv_def cursorInv_def initialNav_def)

lemmas nav_eval =
  changeTopic_def handlePrevious_def handleNext_def initialNav_def Let_def slice0_def jsIndex_def
  trim_def lit_def isWhiteSpace_def toLowerCaseAscii_def lowerUnit_def

text \<open>
  The example of the specification: with history A, B, C and the cursor on C, going back
  twice and pushing D leaves the history A, D with the cursor on D.
\<close>

lemma push_after_back_example:
  "run toLowerCaseAscii
     [Push (lit ''A''), Push (lit ''B''), Push (lit ''C''), Back, Back, Push (lit ''D'')]
     initialNav
   = Inr \<lparr>history = [lit ''A'', lit ''D''], historyIndex = 1, currentTopic = Some (lit ''D'')\<rparr>"
  by (simp add: nav_eval)

text \<open>
  Claim C2. In a state whose cursor is at least \<open>-1\<close> and whose current topic is a string,
  \<open>changeTopic\<close> (push) raises nothing; it returns the state unchanged when the topic is
  empty after trimming or its lower-casing equals that of the current topic; otherwise the
  new history is the entries up to and including the cursor followed by the trimmed topic,
  the cursor is the last index of the new history, and the trimmed topic is current. This
  holds for every lower-casing function \<open>lc\<close>.
\<close>

theorem changeTopic_push:
  assumes "- 1 \<le> historyIndex s" and "currentTopic s = Some cur"
  shows "\<exists>s'. changeTopic lc t s = Inr s' \<and>
           (if trim t = [] \<or> lc (trim t) = lc cur then s' = s
            else history s' = take (nat (historyIndex s + 1)) (history s) @ [trim t] \<and>
                 historyIndex s' = int (length (history s')) - 1 \<and>
                 currentTopic s' = Some (trim t))"
  using assms by (simp add: changeTopic_def Let_def slice0_take)

theorem changeTopic_push_witness:
  "- 1 \<le> historyIndex \<lparr>history = [lit ''A'', lit ''B'', lit ''C''], historyIndex = 0,
                        currentTopic = Some (lit ''A'')\<rparr> \<and>
   currentTopic \<lparr>history = [lit ''A'', lit ''B'', lit ''C''], historyIndex = 0,
                 currentTopic = Some (lit ''A'')\<rparr> = Some (lit ''A'') \<and>
   (\<exists>s'. changeTopic toLowerCaseAscii (lit '' D  '')
            \<lparr>history = [lit ''A'', lit ''B'', lit ''C''], historyIndex = 0,
             currentTopic = Some (lit ''A'')\<rparr> = Inr s' \<and>
          history s' = [lit ''A'', lit ''D''] \<and> historyIndex s' = 1 \<and>
          currentTopic s' = Some (lit ''D''))"
  using changeTopic_push [of "\<lparr>history = [lit ''A'', lit ''B'', lit ''C''], historyIndex = 0,
                               currentTopic = Some (lit ''A'')\<rparr>"
                             "lit ''A''" toLowerCaseAscii "lit '' D  ''"]
  by (auto simp: trim_def lit_def isWhiteSpace_def toLowerCaseAscii_def lowerUnit_def)

text \<open>
  Claim C5. From the initial state (empty history, cursor \<open>-1\<close>) every sequence of push,
  back and forward actions runs without an error and ends in a state whose cursor lies
  between \<open>-1\<close> and the last index of the history.
\<close>

theorem cursor_invariant:
  "\<exists>s. run lc as initialNav = Inr s \<and> cursorInv s"
  using run_navInv [OF initialNav_navInv, of lc as] by (auto simp: navInv_def)

text \<open>
  Claim C6. \<open>handlePrevious\<close> (back) returns the state unchanged when the cursor is at most
  0, and otherwise keeps the history, decrements the cursor and makes \<open>history[cursor]\<close>
  current; \<open>handleNext\<close> (forward) returns the state unchanged when the cursor is at least
  the last index, and otherwise keeps the history, increments the cursor and makes
  \<open>history[cursor]\<close> current. Both are total: the source has no operation that can raise.
\<close>

theorem back_forward_steps:
  "(historyIndex s \<le> 0 \<longrightarrow> handlePrevious s = s) \<and>
   (0 < historyIndex s \<longrightarrow>
      history (handlePrevious s) = history s \<and>
      historyIndex (handlePrevious s) = historyIndex s - 1 \<and>
      currentTopic (handlePrevious s) = jsIndex (history s) (historyIndex s - 1)) \<and>
   (int (length (history s)) - 1 \<le> historyIndex s \<longrightarrow> handleNext s = s) \<and>
   (historyIndex s < int (length (history s)) - 1 \<longrightarrow>
      history (handleNext s) = history s \<and>
      historyIndex (handleNext s) = historyIndex s + 1 \<and>
      currentTopic (handleNext s) = jsIndex (history s) (historyIndex s + 1))"
  by (simp add: handlePrevious_def handleNext_def Let_def)

theorem back_forward_steps_witness:
  "historyIndex initialNav \<le> 0 \<and> handlePrevious initialNav = initialNav \<and>
   int (length (history initialNav)) - 1 \<le> historyIndex initialNav \<and>
   handleNext initialNav = initialNav \<and>
   0 < historyIndex \<lparr>history = [lit ''A'', lit ''B'', lit ''C''], historyIndex = 1,
                     currentTopic = Some (lit ''B'')\<rparr> \<and>
   currentTopic (handlePrevious \<lparr>history = [lit ''A'', lit ''B'', lit ''C''], historyIndex = 1,
                                 currentTopic = Some (lit ''B'')\<rparr>) = Some (lit ''A'') \<and>
   currentTopic (handleNext \<lparr>history = [lit ''A'', lit ''B'', lit ''C''], historyIndex = 1,
                             currentTopic = Some (lit ''B'')\<rparr>) = Some (lit ''C'')"
  using back_forward_steps [of initialNav]
    back_forward_steps [of "\<lparr>history = [lit ''A'', lit ''B'', lit ''C''], historyIndex = 1,
                             currentTopic = Some (lit ''B'')\<rparr>"]
  by (simp add: initialNav_def jsIndex_def)

text \<open>
  Claim C7, as stated, fails at the lower boundary: after pushing A and B and going back,
  the cursor is 0; back is then a no-op, but forward is not, and the pair leaves B current
  instead of A.
\<close>

theorem back_then_forward_counterexample:
  "run toLowerCaseAscii [Push (lit ''A''), Push (lit ''B''), Back] initialNav
     = Inr \<lparr>history = [lit ''A'', lit ''B''], historyIndex = 0, currentTopic = Some (lit ''A'')\<rparr> \<and>
   currentTopic (handleNext (handlePrevious
       \<lparr>history = [lit ''A'', lit ''B''], historyIndex = 0, currentTopic = Some (lit ''A'')\<rparr>))
     \<noteq> currentTopic
       \<lparr>history = [lit ''A'', lit ''B''], historyIndex = 0, currentTopic = Some (lit ''A'')\<rparr>"
  by (simp add: nav_eval)

text \<open>
  Claim C7, amended. In every state reached from the initial state by push, back and
  forward actions: when the cursor is above 0, back followed by forward restores the whole
  state, and with it the topic that was current; when the cursor is at most 0, back is a
  no-op (and forward then acts on the unchanged state).
\<close>

theorem back_then_forward:
  assumes "run lc as initialNav = Inr s"
  shows "(0 < historyIndex s \<longrightarrow> handleNext (handlePrevious s) = s) \<and>
         (historyIndex s \<le> 0 \<longrightarrow> handlePrevious s = s)"
proof -
  from run_navInv [OF initialNav_navInv, of lc as] assms have "navInv s"
    by auto
  then show ?thesis
    by (cases s) (auto simp: handlePrevious_def handleNext_def Let_def navInv_def cursorInv_def)
qed

theorem back_then_forward_witness:
  "run toLowerCaseAscii [Push (lit ''A''), Push (lit ''B'')] initialNav
     = Inr \<lparr>history = [lit ''A'', lit ''B''], historyIndex = 1, currentTopic = Some (lit ''B'')\<rparr> \<and>
   0 < historyIndex
       \<lparr>history = [lit ''A'', lit ''B''], historyIndex = 1, currentTopic = Some (lit ''B'')\<rparr> \<and>
   handleNext (handlePrevious
       \<lparr>history = [lit ''A'', lit ''B''], historyIndex = 1, currentTopic = Some (lit ''B'')\<rparr>)
     = \<lparr>history = [lit ''A'', lit ''B''], historyIndex = 1, currentTopic = Some (lit ''B'')\<rparr>"
proof -
  have r: "run toLowerCaseAscii [Push (lit ''A''), Push (lit ''B'')] initialNav
     = Inr \<lparr>history = [lit ''A'', lit ''B''], historyIndex = 1, currentTopic = Some (lit ''B'')\<rparr>"
    by (simp add: nav_eval)
  from back_then_forward [OF r] r show ?thesis by simp
qed

section \<open>Properties of the renderer\<close>


lemma indexOf_Some: "indexOf s t = Some i \<Longrightarrow> take i s @ t @ drop (i + length t) s = s"
proof (induction s arbitrary: i)
  case Nil
  then show ?case by (simp split: if_splits)
next
  case (Cons c s)
  show ?case
  proof (cases "take (length t) (c # s) = t")
    case True
    with Cons.prems have "i = 0" by simp
    moreover from True have "t @ drop (length t) (c # s) = c # s"
      by (metis append_take_drop_id)
    ultimately show ?thesis by simp
  next
    case False
    with Cons.prems obtain j where j: "indexOf s t = Some j" "i = Suc j"
      by (auto split: option.splits)
    from Cons.IH [OF j(1)] j(2) show ?thesis by simp
  qed
qed

lemma embedLink_text:
  "concat (map partText (embedLink l placed ps)) = concat (map partText ps)"
proof (induction l placed ps rule: embedLink.induct)
  case (3 l linkPlaced s ps)
  show ?case
  proof (cases linkPlaced)
    case True
    with "3.IH"(1) show ?thesis by simp
  next
    case False
    show ?thesis
    proof (cases "indexOf s (title l)")
      case None
      with False "3.IH"(2) show ?thesis by simp
    next
      case (Some i)
      have opt: "\<And>b. concat (map partText (if b \<noteq> [] then [Str b] else [])) = b"
        by simp
      from "3.IH"(3) [OF False Some refl refl]
      have "concat (map partText (embedLink l linkPlaced (Str s # ps)))
            = (take i s @ title l @ drop (i + length (title l)) s) @ concat (map partText ps)"
        using False Some by (simp add: Let_def opt del: if_split)
      then show ?thesis by (simp only: indexOf_Some [OF Some]) simp
    qed
  qed
qed simp_all

lemma embedLinks_text:
  "concat (map partText (embedLinks used ls ps)) = concat (map partText ps)"
  by (induction ls arbitrary: ps) (simp_all add: embedLink_text)

lemma concat_splitWhitespace: "concat (splitWhitespace s) = s"
proof (induction s rule: splitWhitespace.induct)
  case (1 s)
  show ?case
  proof (cases "dropWhile (\<lambda>c. \<not> isWhiteSpace c) s = []")
    case True
    then show ?thesis
      by (subst splitWhitespace.simps) (simp add: Let_def takeWhile_eq_all_conv dropWhile_eq_Nil_conv)
  next
    case False
    from "1.IH" [OF refl refl False]
    have "concat (splitWhitespace s) =
            takeWhile (\<lambda>c. \<not> isWhiteSpace c) s @
            (takeWhile isWhiteSpace (dropWhile (\<lambda>c. \<not> isWhiteSpace c) s) @
             dropWhile isWhiteSpace (dropWhile (\<lambda>c. \<not> isWhiteSpace c) s))"
      using False by (subst splitWhitespace.simps) (simp add: Let_def)
    then show ?thesis by simp
  qed
qed

lemma matchPunctuation_Some:
  "matchPunctuation p = Some m \<Longrightarrow>
     \<exists>w. p = w @ m \<and> m \<noteq> [] \<and> list_all isPunctuation m \<and> (w = [] \<or> \<not> isPunctuation (last w))"
proof (induction p)
  case Nil
  then show ?case by simp
next
  case (Cons c p)
  show ?case
  proof (cases "list_all isPunctuation (c # p)")
    case True
    with Cons.prems show ?thesis by auto
  next
    case False
    with Cons.prems have m: "matchPunctuation p = Some m" by (auto split: if_splits)
    from Cons.IH [OF m] obtain w where w: "p = w @ m" "m \<noteq> []" "list_all isPunctuation m"
      "w = [] \<or> \<not> isPunctuation (last w)" by blast
    from False w have "\<not> isPunctuation (last (c # w))"
      by (cases "w = []") auto
    with w show ?thesis
      by (intro exI [of _ "c # w"]) simp
  qed
qed

lemma matchPunctuation_None:
  "matchPunctuation p = None \<Longrightarrow> p = [] \<or> \<not> isPunctuation (last p)"
  by (induction p) (auto split: if_splits)

lemma slice0_drop_suffix: "m \<noteq> [] \<Longrightarrow> slice0 (w @ m) (- int (length m)) = w"
  by (simp add: slice0_def Let_def)

lemma visibleText_renderPart: "visibleText (renderPart lc p) = p"
proof (cases "matchPunctuation p")
  case None
  then show ?thesis by (simp add: renderPart_def Let_def)
next
  case (Some m)
  from matchPunctuation_Some [OF Some] obtain w where "p = w @ m" "m \<noteq> []" by blast
  with Some show ?thesis
    by (simp add: renderPart_def Let_def slice0_drop_suffix)
qed

lemma foldl_push: "foldl (\<lambda>elements part. elements @ [f part]) acc ps = acc @ map f ps"
  by (induction ps arbitrary: acc) simp_all

lemma renderInteractiveWords_map:
  "renderInteractiveWords lc text = map (renderPart lc) (splitWhitespace text)"
  by (simp add: renderInteractiveWords_def foldl_push)

lemma visibleText_renderInteractiveWords:
  "concat (map visibleText (renderInteractiveWords lc text)) = text"
proof -
  have "map visibleText (renderInteractiveWords lc text) = splitWhitespace text"
    by (simp add: renderInteractiveWords_map visibleText_renderPart o_def)
  then show ?thesis by (simp add: concat_splitWhitespace)
qed

lemma visibleText_renderContentPart:
  "concat (map visibleText (renderContentPart lc p)) = partText p"
  by (cases p) (simp_all add: visibleText_renderInteractiveWords)

lemma concat_map_concat_map:
  "concat (map f (concat (map g xs))) = concat (map (\<lambda>x. concat (map f (g x))) xs)"
  by (induction xs) simp_all

text \<open>
  Claim C1. For every text, every list of links, every set of used URLs (and every
  lower-casing function), the visible texts of the elements of \<open>InteractiveContent\<close>,
  concatenated in order, are the input text, code unit for code unit. Position by
  position, every anchor and every button therefore shows the stretch of the input it
  stands for.
\<close>

theorem render_round_trip:
  "concat (map visibleText (InteractiveContent lc content links usedLinks)) = content"
proof -
  have "concat (map visibleText (InteractiveContent lc content links usedLinks))
        = concat (map partText (firstPass content links usedLinks))"
    by (simp add: InteractiveContent_def concat_map_concat_map visibleText_renderContentPart)
  also have "\<dots> = concat (map partText [Str content])"
    by (simp only: firstPass_def embedLinks_text)
  finally show ?thesis by simp
qed

subsection \<open>Word tokenization\<close>


lemma trim_Nil_iff: "trim s = [] \<longleftrightarrow> list_all isWhiteSpace s"
proof -
  have "trim s = [] \<longleftrightarrow> (\<forall>c \<in> set (dropWhile isWhiteSpace s). isWhiteSpace c)"
    by (simp add: trim_def dropWhile_eq_Nil_conv)
  also have "\<dots> \<longleftrightarrow> dropWhile isWhiteSpace s = []"
  proof
    assume all: "\<forall>c \<in> set (dropWhile isWhiteSpace s). isWhiteSpace c"
    show "dropWhile isWhiteSpace s = []"
    proof (rule ccontr)
      assume ne: "dropWhile isWhiteSpace s \<noteq> []"
      then have "\<not> isWhiteSpace (hd (dropWhile isWhiteSpace s))"
        by (rule hd_dropWhile)
      moreover from ne have "hd (dropWhile isWhiteSpace s) \<in> set (dropWhile isWhiteSpace s)"
        by simp
      ultimately show False using all by blast
    qed
  next
    assume "dropWhile isWhiteSpace s = []"
    then show "\<forall>c \<in> set (dropWhile isWhiteSpace s). isWhiteSpace c"
      by (simp only: list.set ball_empty)
  qed
  also have "\<dots> \<longleftrightarrow> list_all isWhiteSpace s"
    by (simp add: dropWhile_eq_Nil_conv list_all_iff)
  finally show ?thesis .
qed

lemma splitWhitespace_parts:
  "p \<in> set (splitWhitespace s) \<Longrightarrow>
     list_all isWhiteSpace p \<or> (p \<noteq> [] \<and> list_all (\<lambda>c. \<not> isWhiteSpace c) p)"
proof (induction s rule: splitWhitespace.induct)
  case (1 s)
  let ?seg = "takeWhile (\<lambda>c. \<not> isWhiteSpace c) s"
  let ?rest = "dropWhile (\<lambda>c. \<not> isWhiteSpace c) s"
  have seg: "list_all isWhiteSpace ?seg \<or> (?seg \<noteq> [] \<and> list_all (\<lambda>c. \<not> isWhiteSpace c) ?seg)"
    by (cases "?seg = []") (auto simp: list_all_iff dest: set_takeWhileD)
  have run: "list_all isWhiteSpace (takeWhile isWhiteSpace ?rest)"
    by (auto simp: list_all_iff dest: set_takeWhileD)
  show ?case
  proof (cases "?rest = []")
    case True
    then have "splitWhitespace s = [?seg]"
      by (subst splitWhitespace.simps) (simp add: Let_def)
    with "1.prems" have "p = ?seg" by simp
    with seg show ?thesis by simp
  next
    case False
    then have "splitWhitespace s =
        ?seg # takeWhile isWhiteSpace ?rest # splitWhitespace (dropWhile isWhiteSpace ?rest)"
      by (subst splitWhitespace.simps) (simp add: Let_def)
    with "1.prems" have "p = ?seg \<or> p = takeWhile isWhiteSpace ?rest \<or>
        p \<in> set (splitWhitespace (dropWhile isWhiteSpace ?rest))"
      by simp
    with seg run "1.IH" [OF refl refl False] show ?thesis by auto
  qed
qed

lemma matchPunctuation_append:
  assumes "list_all isPunctuation q" and "w = [] \<or> \<not> isPunctuation (last w)"
  shows "matchPunctuation (w @ q) = (if q = [] then None else Some q)"
  using assms
proof (induction w)
  case Nil
  then show ?case by (cases q) auto
next
  case (Cons c w)
  from Cons.prems(2) have nall: "\<not> list_all isPunctuation ((c # w) @ q)"
    by (auto simp: list_all_iff split: if_splits)
  from Cons.prems(2) have w: "w = [] \<or> \<not> isPunctuation (last w)"
    by (auto split: if_splits)
  from nall have "matchPunctuation ((c # w) @ q) = matchPunctuation (w @ q)"
    by (simp only: append_Cons matchPunctuation.simps if_False)
  with Cons.IH [OF Cons.prems(1) w] show ?case by simp
qed

lemma renderPart_split:
  assumes "trim part \<noteq> []"
  shows "\<exists>word punctuation.
         part = word @ punctuation \<and> list_all isPunctuation punctuation \<and>
         (word = [] \<or> \<not> isPunctuation (last word)) \<and>
         renderPart lc part =
           (if lc word \<in> STOP_WORDS \<or> word = [] then Fragment [TextNode part]
            else Fragment [Button word word, TextNode punctuation])"
proof (cases "matchPunctuation part")
  case None
  from matchPunctuation_None [OF None] assms None show ?thesis
    by (intro exI [of _ part] exI [of _ "[]"]) (simp add: renderPart_def Let_def)
next
  case (Some m)
  from matchPunctuation_Some [OF Some] obtain w where w: "part = w @ m" "m \<noteq> []"
    "list_all isPunctuation m" "w = [] \<or> \<not> isPunctuation (last w)" by blast
  have "renderPart lc part =
           (if lc w \<in> STOP_WORDS \<or> w = [] then Fragment [TextNode part]
            else Fragment [Button w w, TextNode m])"
    using assms Some w(1,2) by (simp add: renderPart_def Let_def slice0_drop_suffix)
  with w show ?thesis by blast
qed

lemma renderPart_stop_word:
  assumes "lc w \<in> STOP_WORDS" and "w = [] \<or> \<not> isPunctuation (last w)" and "list_all isPunctuation q"
  shows "renderPart lc (w @ q) = Fragment [TextNode (w @ q)]"
proof (cases "q = []")
  case True
  with assms matchPunctuation_append [OF assms(3,2)] show ?thesis
    by (simp add: renderPart_def Let_def)
next
  case False
  with assms matchPunctuation_append [OF assms(3,2)] show ?thesis
    by (simp add: renderPart_def Let_def slice0_drop_suffix)
qed

text \<open>
  The example of the specification, and a stop word behind an opening bracket: only
  punctuation at the end of a token is split off.
\<close>

lemma tokens_example:
  "renderInteractiveWords toLowerCaseAscii (lit ''The cat, runs fast.'') =
     [Fragment [TextNode (lit ''The'')], Fragment [TextNode (lit '' '')],
      Fragment [Button (lit ''cat'') (lit ''cat''), TextNode (lit '','')],
      Fragment [TextNode (lit '' '')],
      Fragment [Button (lit ''runs'') (lit ''runs''), TextNode []],
      Fragment [TextNode (lit '' '')],
      Fragment [Button (lit ''fast'') (lit ''fast''), TextNode (lit ''.'')]]"
  by code_simp

lemma leading_punctuation_example:
  "renderPart toLowerCaseAscii (lit ''(the'') = Fragment [Button (lit ''(the'') (lit ''(the''), TextNode []]"
  by code_simp

lemma takeWhile_append_stop:
  assumes "\<And>x. x \<in> set xs \<Longrightarrow> P x" and "ys = [] \<or> \<not> P (hd ys)"
  shows "takeWhile P (xs @ ys) = xs"
proof -
  from assms(2) have "takeWhile P ys = []"
    by (simp only: takeWhile_eq_Nil_iff)
  with takeWhile_append2 [of xs P ys, OF assms(1)] show ?thesis by simp
qed

lemma dropWhile_append_stop:
  assumes "\<And>x. x \<in> set xs \<Longrightarrow> P x" and "ys = [] \<or> \<not> P (hd ys)"
  shows "dropWhile P (xs @ ys) = ys"
proof -
  from assms(2) have "dropWhile P ys = ys"
    by (simp only: dropWhile_eq_self_iff)
  with dropWhile_append2 [of xs P ys, OF assms(1)] show ?thesis by simp
qed

lemma hd_splitWhitespace:
  "hd (splitWhitespace s) = takeWhile (\<lambda>c. \<not> isWhiteSpace c) s"
  by (subst splitWhitespace.simps) (simp add: Let_def)

lemma splitWhitespace_Nil: "splitWhitespace [] = [[]]"
  by (subst splitWhitespace.simps) simp

lemma isWhitespaceSplit_splitWhitespace: "isWhitespaceSplit (splitWhitespace s)"
proof (induction s rule: splitWhitespace.induct)
  case (1 s)
  define seg where "seg = takeWhile (\<lambda>c. \<not> isWhiteSpace c) s"
  define rest where "rest = dropWhile (\<lambda>c. \<not> isWhiteSpace c) s"
  define run where "run = takeWhile isWhiteSpace rest"
  define tail where "tail = dropWhile isWhiteSpace rest"
  have unfold: "splitWhitespace s =
      (if rest = [] then [seg] else seg # run # splitWhitespace tail)"
    unfolding seg_def rest_def run_def tail_def
    by (subst splitWhitespace.simps) (simp only: Let_def)
  have seg: "list_all (\<lambda>c. \<not> isWhiteSpace c) seg"
    unfolding seg_def by (auto simp: list_all_iff dest: set_takeWhileD)
  show ?case
  proof (cases "rest = []")
    case True
    with unfold seg show ?thesis by simp
  next
    case False
    have IH: "isWhitespaceSplit (splitWhitespace tail)"
      using "1.IH" [OF refl refl] False unfolding rest_def tail_def by blast
    have hdrest: "isWhiteSpace (hd rest)"
      using False hd_dropWhile [of "\<lambda>c. \<not> isWhiteSpace c" s] unfolding rest_def by blast
    have run_ne: "run \<noteq> []"
      unfolding run_def using False hdrest by (cases rest) simp_all
    have run: "list_all isWhiteSpace run"
      unfolding run_def by (auto simp: list_all_iff dest: set_takeWhileD)
    have last_or: "length (splitWhitespace tail) = 1 \<or> hd (splitWhitespace tail) \<noteq> []"
    proof (cases "tail = []")
      case True
      then show ?thesis by (simp add: splitWhitespace_Nil)
    next
      case False
      then have "\<not> isWhiteSpace (hd tail)"
        unfolding tail_def by (rule hd_dropWhile)
      with False have "takeWhile (\<lambda>c. \<not> isWhiteSpace c) tail \<noteq> []"
        by (cases tail) simp_all
      then show ?thesis by (simp only: hd_splitWhitespace simp_thms)
    qed
    from unfold False have "splitWhitespace s = seg # run # splitWhitespace tail"
      by simp
    with seg run_ne run IH last_or show ?thesis
      by (simp only: isWhitespaceSplit.simps simp_thms)
  qed
qed

lemma isWhitespaceSplit_unique:
  "isWhitespaceSplit ps \<Longrightarrow> splitWhitespace (concat ps) = ps"
proof (induction ps rule: isWhitespaceSplit.induct)
  case 1
  then show ?case by simp
next
  case (2 t)
  then have "dropWhile (\<lambda>c. \<not> isWhiteSpace c) t = []" "takeWhile (\<lambda>c. \<not> isWhiteSpace c) t = t"
    by (simp_all add: list_all_iff)
  then show ?case
    by (subst splitWhitespace.simps) (simp add: Let_def)
next
  case (3 t w rest)
  from "3.prems" have t: "\<And>c. c \<in> set t \<Longrightarrow> \<not> isWhiteSpace c"
    and w: "w \<noteq> []" "\<And>c. c \<in> set w \<Longrightarrow> isWhiteSpace c"
    and rest: "isWhitespaceSplit rest" and lo: "length rest = 1 \<or> hd rest \<noteq> []"
    by (simp_all add: list_all_iff)
  let ?s = "concat (t # w # rest)"
  from w have hw: "isWhiteSpace (hd w)" by (cases w) simp_all
  have s: "?s = t @ (w @ concat rest)" by simp
  from w hw have stop1: "w @ concat rest = [] \<or> \<not> \<not> isWhiteSpace (hd (w @ concat rest))"
    by simp
  have seg: "takeWhile (\<lambda>c. \<not> isWhiteSpace c) ?s = t"
    unfolding s using t stop1 by (rule takeWhile_append_stop)
  have rst: "dropWhile (\<lambda>c. \<not> isWhiteSpace c) ?s = w @ concat rest"
    unfolding s using t stop1 by (rule dropWhile_append_stop)
  have stop2: "concat rest = [] \<or> \<not> isWhiteSpace (hd (concat rest))"
  proof (cases rest)
    case Nil
    then show ?thesis by simp
  next
    case (Cons t' rest')
    show ?thesis
    proof (cases "t' = []")
      case True
      with lo Cons have "rest' = []" by simp
      with True Cons show ?thesis by simp
    next
      case False
      from rest Cons have "list_all (\<lambda>c. \<not> isWhiteSpace c) t'"
        by (cases rest') simp_all
      with False have "\<not> isWhiteSpace (hd t')" by (cases t') simp_all
      with False Cons show ?thesis by simp
    qed
  qed
  have run: "takeWhile isWhiteSpace (w @ concat rest) = w"
    using w(2) stop2 by (rule takeWhile_append_stop)
  have tail: "dropWhile isWhiteSpace (w @ concat rest) = concat rest"
    using w(2) stop2 by (rule dropWhile_append_stop)
  from w have ne: "w @ concat rest \<noteq> []" by simp
  have "splitWhitespace ?s = t # w # splitWhitespace (concat rest)"
    by (subst splitWhitespace.simps) (simp only: Let_def seg rst run tail ne if_False)
  with "3.IH" [OF rest] show ?case by simp
qed

lemma splitWhitespace_iff:
  "ps = splitWhitespace text \<longleftrightarrow> isWhitespaceSplit ps \<and> concat ps = text"
proof
  assume "ps = splitWhitespace text"
  then show "isWhitespaceSplit ps \<and> concat ps = text"
    by (simp only: isWhitespaceSplit_splitWhitespace concat_splitWhitespace simp_thms)
next
  assume a: "isWhitespaceSplit ps \<and> concat ps = text"
  then have "isWhitespaceSplit ps" ..
  then have "splitWhitespace (concat ps) = ps"
    by (rule isWhitespaceSplit_unique)
  moreover from a have "concat ps = text" ..
  ultimately have "splitWhitespace text = ps" by (simp only:)
  then show "ps = splitWhitespace text" by (rule sym)
qed

lemma specWord_specPunctuation: "specWord part @ specPunctuation part = part"
proof -
  have "specWord part @ specPunctuation part
        = rev (takeWhile isPunctuation (rev part) @ dropWhile isPunctuation (rev part))"
    by (simp only: specWord_def specPunctuation_def rev_append)
  also have "\<dots> = rev (rev part)"
    by (simp only: takeWhile_dropWhile_id)
  finally show ?thesis by simp
qed

lemma specPunctuation_all: "list_all isPunctuation (specPunctuation part)"
  by (auto simp: specPunctuation_def list_all_iff dest: set_takeWhileD)

lemma specWord_last: "specWord part = [] \<or> \<not> isPunctuation (last (specWord part))"
proof (cases "dropWhile isPunctuation (rev part) = []")
  case True
  then show ?thesis by (simp add: specWord_def)
next
  case False
  then have "\<not> isPunctuation (hd (dropWhile isPunctuation (rev part)))"
    by (rule hd_dropWhile)
  with False show ?thesis by (simp add: specWord_def last_rev)
qed

lemma matchPunctuation_spec:
  "matchPunctuation part =
     (if specPunctuation part = [] then None else Some (specPunctuation part))"
proof -
  have "matchPunctuation (specWord part @ specPunctuation part) =
     (if specPunctuation part = [] then None else Some (specPunctuation part))"
    by (rule matchPunctuation_append [OF specPunctuation_all specWord_last])
  then show ?thesis by (simp only: specWord_specPunctuation)
qed

lemma renderPart_specElement: "renderPart lc part = specElement lc part"
proof (cases "specPunctuation part = []")
  case True
  with specWord_specPunctuation [of part] have "specWord part = part" by simp
  with True show ?thesis
    by (auto simp: renderPart_def specElement_def Let_def matchPunctuation_spec trim_Nil_iff)
next
  case False
  have "slice0 part (- int (length (specPunctuation part))) = specWord part"
    using slice0_drop_suffix [OF False, of "specWord part"]
    by (simp only: specWord_specPunctuation)
  with False show ?thesis
    by (auto simp: renderPart_def specElement_def Let_def matchPunctuation_spec trim_Nil_iff)
qed

lemma specElement_stop_word:
  assumes "lc w \<in> STOP_WORDS" and "w = [] \<or> \<not> isPunctuation (last w)" and "list_all isPunctuation q"
  shows "specElement lc (w @ q) = Fragment [TextNode (w @ q)]"
  using assms renderPart_stop_word [of lc w q] by (simp only: renderPart_specElement)

text \<open>
  Claim C4, as stated, fails for punctuation in front of a stop word: in the text \<open>.the\<close>
  the stop word \<open>the\<close> follows a character of the set \<open>.,!?;:\<close>, and the token is rendered
  as a button whose callback argument is \<open>.the\<close>.
\<close>

theorem stop_word_after_punctuation_counterexample:
  "toLowerCaseAscii (lit ''the'') \<in> STOP_WORDS \<and>
   list_all isPunctuation (lit ''.'') \<and>
   renderInteractiveWords toLowerCaseAscii (lit ''.'' @ lit ''the'') =
     [Fragment [Button (lit ''.the'') (lit ''.the''), TextNode []]]"
  by code_simp

text \<open>
  Claim C4, amended. The parts that \<open>renderInteractiveWords\<close> renders are the split of the
  text at its whitespace runs, and that split is the only list with the stated shape
  whose concatenation is the text. The elements are, part by part, those of the
  specification: a whitespace part is plain text; of every other part the longest end
  piece made of \<open>.,!?;:\<close> is the punctuation and the rest is the word; when the word is
  empty or, lower-cased, a stop word, the part is plain text, and otherwise it is a
  button that calls the word-click callback with the word as written and shows the
  word, followed by the punctuation outside the button. A stop word followed by any run
  of these characters is thus plain text. Punctuation in front of a word or inside it
  is not split off: it belongs to the word.
\<close>

theorem word_tokenization:
  "(ps = splitWhitespace text \<longleftrightarrow> isWhitespaceSplit ps \<and> concat ps = text) \<and>
   renderInteractiveWords lc text = map (specElement lc) (splitWhitespace text) \<and>
   specWord part @ specPunctuation part = part \<and>
   (lc w \<in> STOP_WORDS \<and> (w = [] \<or> \<not> isPunctuation (last w)) \<and> list_all isPunctuation q \<longrightarrow>
      specElement lc (w @ q) = Fragment [TextNode (w @ q)])"
proof -
  have a: "ps = splitWhitespace text \<longleftrightarrow> isWhitespaceSplit ps \<and> concat ps = text"
    by (rule splitWhitespace_iff)
  have b: "renderInteractiveWords lc text = map (specElement lc) (splitWhitespace text)"
    by (simp add: renderInteractiveWords_map renderPart_specElement)
  have c: "specWord part @ specPunctuation part = part"
    by (rule specWord_specPunctuation)
  have d: "lc w \<in> STOP_WORDS \<and> (w = [] \<or> \<not> isPunctuation (last w)) \<and> list_all isPunctuation q \<longrightarrow>
      specElement lc (w @ q) = Fragment [TextNode (w @ q)]"
    using specElement_stop_word [of lc w q] by blast
  from a b c d show ?thesis by (intro conjI)
qed

theorem word_tokenization_witness:
  "isWhitespaceSplit [lit ''The'', lit '' '', lit ''cat,'', lit '' '', lit ''runs'', lit '' '', lit ''fast.''] \<and>
   concat [lit ''The'', lit '' '', lit ''cat,'', lit '' '', lit ''runs'', lit '' '', lit ''fast.'']
     = lit ''The cat, runs fast.'' \<and>
   splitWhitespace (lit ''The cat, runs fast.'')
     = [lit ''The'', lit '' '', lit ''cat,'', lit '' '', lit ''runs'', lit '' '', lit ''fast.''] \<and>
   renderInteractiveWords toLowerCaseAscii (lit ''The cat, runs fast.'') =
     [Fragment [TextNode (lit ''The'')], Fragment [TextNode (lit '' '')],
      Fragment [Button (lit ''cat'') (lit ''cat''), TextNode (lit '','')],
      Fragment [TextNode (lit '' '')],
      Fragment [Button (lit ''runs'') (lit ''runs''), TextNode []],
      Fragment [TextNode (lit '' '')],
      Fragment [Button (lit ''fast'') (lit ''fast''), TextNode (lit ''.'')]] \<and>
   specWord (lit ''cat,'') = lit ''cat'' \<and> specPunctuation (lit ''cat,'') = lit '','' \<and>
   toLowerCaseAscii (lit ''The'') \<in> STOP_WORDS \<and> \<not> isPunctuation (last (lit ''The'')) \<and>
   list_all isPunctuation (lit ''?!'') \<and>
   specElement toLowerCaseAscii (lit ''The'' @ lit ''?!'') = Fragment [TextNode (lit ''The'' @ lit ''?!'')]"
proof -
  let ?ps = "[lit ''The'', lit '' '', lit ''cat,'', lit '' '', lit ''runs'', lit '' '', lit ''fast.'']"
  let ?text = "lit ''The cat, runs fast.''"
  have h1: "isWhitespaceSplit ?ps" by code_simp
  have h2: "concat ?ps = ?text" by code_simp
  have h3: "toLowerCaseAscii (lit ''The'') \<in> STOP_WORDS" by code_simp
  have h4: "\<not> isPunctuation (last (lit ''The''))" by code_simp
  have h5: "list_all isPunctuation (lit ''?!'')" by code_simp
  have w: "specWord (lit ''cat,'') = lit ''cat''" "specPunctuation (lit ''cat,'') = lit '',''"
    by code_simp+
  have els: "map (specElement toLowerCaseAscii) ?ps =
     [Fragment [TextNode (lit ''The'')], Fragment [TextNode (lit '' '')],
      Fragment [Button (lit ''cat'') (lit ''cat''), TextNode (lit '','')],
      Fragment [TextNode (lit '' '')],
      Fragment [Button (lit ''runs'') (lit ''runs''), TextNode []],
      Fragment [TextNode (lit '' '')],
      Fragment [Button (lit ''fast'') (lit ''fast''), TextNode (lit ''.'')]]"
    by code_simp
  note inst = word_tokenization [of ?ps ?text toLowerCaseAscii "lit ''cat,''" "lit ''The''" "lit ''?!''"]
  from inst h1 h2 have split: "splitWhitespace ?text = ?ps" by simp
  from inst split els have render: "renderInteractiveWords toLowerCaseAscii ?text =
     [Fragment [TextNode (lit ''The'')], Fragment [TextNode (lit '' '')],
      Fragment [Button (lit ''cat'') (lit ''cat''), TextNode (lit '','')],
      Fragment [TextNode (lit '' '')],
      Fragment [Button (lit ''runs'') (lit ''runs''), TextNode []],
      Fragment [TextNode (lit '' '')],
      Fragment [Button (lit ''fast'') (lit ''fast''), TextNode (lit ''.'')]]"
    by (simp only:)
  from inst h3 h4 h5 have stop: "specElement toLowerCaseAscii (lit ''The'' @ lit ''?!'')
      = Fragment [TextNode (lit ''The'' @ lit ''?!'')]"
    by blast
  from h1 h2 split render w h3 h4 h5 stop show ?thesis
    by (intro conjI)
qed

subsection \<open>Link splicing\<close>




















text \<open>
  Two runs of the first pass: a title that occurs twice is embedded once, at its first
  occurrence; the longer of two nested titles is embedded first, after which the shorter
  one no longer finds a string that contains it.
\<close>

lemma splice_example:
  "firstPass (lit ''AI and Artificial Intelligence AI'') [linkAI, linkArt] {} =
     [Elem linkAI, Str (lit '' and ''), Elem linkArt, Str (lit '' AI'')]"
  by code_simp



lemma longest_first_example:
  "firstPass (lit ''Try Artificial Intelligence'')
     [\<lparr>url = lit ''u3'', title = lit ''Intelligence''\<rparr>, linkArt] {} =
     [Str (lit ''Try ''), Elem linkArt]"
  by code_simp

section \<open>Properties of the random topic\<close>



lemma foldl_setOrder:
  "distinct (seen @ xs) \<Longrightarrow>
     foldl (\<lambda>seen x. if x \<in> set seen then seen else seen @ [x]) seen xs = seen @ xs"
proof (induction xs arbitrary: seen)
  case Nil
  then show ?case by simp
next
  case (Cons x xs)
  from Cons.prems have "x \<notin> set seen" and "distinct ((seen @ [x]) @ xs)"
    by auto
  with Cons.IH [of "seen @ [x]"] show ?case by simp
qed

lemma setOrder_distinct: "distinct xs \<Longrightarrow> setOrder xs = xs"
  using foldl_setOrder [of "[]" xs] by (simp add: setOrder_def)

lemma findIndex_cong:
  "(\<And>x. x \<in> set xs \<Longrightarrow> p x = q x) \<Longrightarrow> findIndex p xs = findIndex q xs"
  by (induction xs) simp_all

lemma findIndex_distinct:
  "distinct (map f ws) \<Longrightarrow> k < length ws \<Longrightarrow> findIndex (\<lambda>w. f w = f (ws ! k)) ws = int k"
proof (induction ws arbitrary: k)
  case Nil
  then show ?case by simp
next
  case (Cons x ws)
  show ?case
  proof (cases k)
    case 0
    then show ?thesis by simp
  next
    case (Suc k')
    with Cons.prems have k': "k' < length ws" and d: "distinct (map f ws)"
      and nx: "f x \<notin> f ` set ws" by auto
    from k' nx have "f x \<noteq> f (ws ! k')"
      by (metis imageI nth_mem)
    moreover from Cons.IH [OF d k'] have "findIndex (\<lambda>w. f w = f (ws ! k')) ws = int k'" .
    ultimately show ?thesis using Suc by (simp add: Let_def)
  qed
qed

lemma bitLength_le: "n < 2 ^ k \<Longrightarrow> bitLength n \<le> k"
proof (induction k arbitrary: n)
  case 0
  then show ?case by (simp add: bitLength.simps)
next
  case (Suc k)
  show ?case
  proof (cases "n = 0")
    case True
    then show ?thesis by (simp add: bitLength.simps)
  next
    case False
    from Suc.prems have "n div 2 < 2 ^ k" by simp
    from Suc.IH [OF this] False show ?thesis
      by (subst bitLength.simps) simp
  qed
qed

lemma round_half_even_le:
  fixes exact sh :: nat
  assumes "0 < sh"
  shows "(if 2 ^ (sh - 1) < exact mod 2 ^ sh \<or>
             (exact mod 2 ^ sh = 2 ^ (sh - 1) \<and> odd (exact div 2 ^ sh))
          then exact div 2 ^ sh + 1 else exact div 2 ^ sh) * 2 ^ sh
         \<le> exact + 2 ^ (sh - 1)"
proof -
  let ?q = "exact div 2 ^ sh" and ?r = "exact mod 2 ^ sh" and ?h = "(2::nat) ^ (sh - 1)"
  from assms have two: "(2::nat) ^ sh = 2 * ?h"
    by (cases sh) simp_all
  have ex: "exact = ?q * 2 ^ sh + ?r" by (rule div_mult_mod_eq [symmetric])
  have down: "?q * 2 ^ sh \<le> exact + ?h"
    using ex by linarith
  have up: "(?q + 1) * 2 ^ sh \<le> exact + ?h" if "?h \<le> ?r"
  proof -
    have "(?q + 1) * 2 ^ sh = ?q * 2 ^ sh + 2 * ?h"
      by (simp add: two algebra_simps)
    also have "\<dots> \<le> ?q * 2 ^ sh + ?r + ?h" using that by simp
    also have "\<dots> = exact + ?h" using ex by simp
    finally show ?thesis .
  qed
  show ?thesis
  proof (cases "?h < ?r \<or> (?r = ?h \<and> odd ?q)")
    case True
    then have "?h \<le> ?r" by auto
    from up [OF this] True show ?thesis by (simp only: if_True)
  next
    case False
    with down show ?thesis by (simp only: if_False)
  qed
qed

lemma floorOfProduct_less:
  assumes "isRandomValue m e"
  shows "floorOfProduct m e 134 < 134"
proof -
  let ?N = "134 * m"
  from assms have m53: "m < 2 ^ 53" and me: "m < 2 ^ e"
    by (simp_all add: isRandomValue_def)
  from me have "m + 1 \<le> 2 ^ e" by simp
  then have "134 * (m + 1) \<le> 134 * 2 ^ e" by (rule mult_le_mono2)
  then have room: "?N + 134 \<le> 134 * 2 ^ e" by simp
  show ?thesis
  proof (cases "bitLength ?N \<le> 53")
    case True
    from room have "?N < 134 * 2 ^ e" by simp
    then have "?N div 2 ^ e < 134" by (rule less_mult_imp_div_less)
    with True show ?thesis by (simp add: floorOfProduct_def Let_def)
  next
    case False
    let ?sh = "bitLength ?N - 53"
    from False have sh0: "0 < ?sh" by simp
    from m53 have "?N < 134 * 2 ^ 53" by simp
    also have "\<dots> < (2::nat) ^ 61" by simp
    finally have "bitLength ?N \<le> 61" by (rule bitLength_le)
    then have "?sh - 1 \<le> 7" by simp
    then have "(2::nat) ^ (?sh - 1) \<le> 2 ^ 7" by (rule power_increasing) simp
    then have half: "(2::nat) ^ (?sh - 1) \<le> 128" by simp
    let ?rounded = "(if 2 ^ (?sh - 1) < ?N mod 2 ^ ?sh \<or>
             (?N mod 2 ^ ?sh = 2 ^ (?sh - 1) \<and> odd (?N div 2 ^ ?sh))
          then ?N div 2 ^ ?sh + 1 else ?N div 2 ^ ?sh) * 2 ^ ?sh"
    from round_half_even_le [OF sh0, of ?N] have "?rounded \<le> ?N + 2 ^ (?sh - 1)" .
    with half room have "?rounded < 134 * 2 ^ e" by linarith
    then have "?rounded div 2 ^ e < 134" by (rule less_mult_imp_div_less)
    with False show ?thesis by (simp add: floorOfProduct_def Let_def)
  qed
qed

text \<open>
  A value of \<open>Math.random()\<close> at which the rounding of the product matters: the exact
  product lies below 5 by \<open>2 / 2 ^ 52\<close>, and the binary64 product is 5.
\<close>

lemma rounding_example:
  "isRandomValue 168044762215317 52 \<and>
   floorOfProduct 168044762215317 52 134 = 5 \<and>
   (134 * 168044762215317) div 2 ^ 52 = (4::nat)"
  by (simp add: isRandomValue_def floorOfProduct_def Let_def bitLength.simps)

lemma words_lower_distinct: "distinct (map toLowerCaseAscii PREDEFINED_WORDS)"
  by code_simp

lemma words_plain: "list_all (\<lambda>w. isAscii w \<and> trim w = w \<and> w \<noteq> []) PREDEFINED_WORDS"
  by code_simp

lemma words_length: "length PREDEFINED_WORDS = 134"
  by code_simp

lemma UNIQUE_WORDS_eq: "UNIQUE_WORDS = PREDEFINED_WORDS"
proof -
  from words_lower_distinct have "distinct PREDEFINED_WORDS"
    by (simp add: distinct_map)
  then show ?thesis by (simp add: UNIQUE_WORDS_def setOrder_distinct)
qed

lemma changeTopic_word:
  assumes "currentTopic s = Some cur" and "trim w = w" and "w \<noteq> []" and "lc w \<noteq> lc cur"
  shows "changeTopic lc w s =
           Inr (s\<lparr>history := slice0 (history s) (historyIndex s + 1) @ [w],
                   historyIndex := int (length (slice0 (history s) (historyIndex s + 1))),
                   currentTopic := Some w\<rparr>)"
  using assms by (simp add: changeTopic_def Let_def)

text \<open>
  Claim C10. Let \<open>Math.random()\<close> return the binary64 number given by \<open>m\<close> and \<open>e\<close>, let the
  current topic be a string, and let the lower-casing function agree with the ASCII one
  on strings of ASCII code units. The index \<open>Math.floor(Math.random() * 134)\<close>, computed
  in binary64, is below 134. \<open>handleRandom\<close> raises nothing and pushes a word \<open>w\<close> of the
  word list whose lower-casing differs from that of the current topic: \<open>w\<close> is the word at
  the random index, or, when that word equals the current topic up to case, the next
  word of the list (cyclically). The resulting state differs from the old one: \<open>w\<close> is
  appended to the history up to the cursor and is current.
\<close>

theorem handleRandom_pushes:
  assumes "isRandomValue m e" and "currentTopic s = Some cur"
    and "\<forall>w. isAscii w \<longrightarrow> lc w = toLowerCaseAscii w"
  shows "\<exists>w s'. w \<in> set UNIQUE_WORDS \<and> lc w \<noteq> lc cur \<and>
           w = (if lc (UNIQUE_WORDS ! floorOfProduct m e (length UNIQUE_WORDS)) = lc cur
                then UNIQUE_WORDS ! ((floorOfProduct m e (length UNIQUE_WORDS) + 1)
                                      mod length UNIQUE_WORDS)
                else UNIQUE_WORDS ! floorOfProduct m e (length UNIQUE_WORDS)) \<and>
           handleRandom lc m e s = Inr s' \<and> s' \<noteq> s \<and>
           history s' = slice0 (history s) (historyIndex s + 1) @ [w] \<and>
           historyIndex s' = int (length (history s')) - 1 \<and>
           currentTopic s' = Some w"
proof -
  let ?W = UNIQUE_WORDS
  let ?n = "length ?W"
  let ?k = "floorOfProduct m e ?n"
  let ?next = "(?k + 1) mod ?n"
  have n: "?n = 134"
    by (simp add: UNIQUE_WORDS_eq words_length)
  from floorOfProduct_less [OF assms(1)] n have k: "?k < ?n" by simp
  then have pick: "jsIndex ?W (int ?k) = Some (?W ! ?k)"
    by (simp add: jsIndex_def)
  have plain: "isAscii w \<and> trim w = w \<and> w \<noteq> []" if "w \<in> set ?W" for w
    using words_plain that by (simp add: UNIQUE_WORDS_eq list_all_iff)
  have lc: "lc w = toLowerCaseAscii w" if "w \<in> set ?W" for w
    using plain [OF that] assms(3) by blast
  have dist: "distinct (map toLowerCaseAscii ?W)"
    by (simp add: UNIQUE_WORDS_eq words_lower_distinct)
  have nx: "?next < ?n" using n by simp
  have mem: "?W ! ?k \<in> set ?W" "?W ! ?next \<in> set ?W"
    using k nx by (simp_all only: nth_mem)
  have push: "\<exists>s'. changeTopic lc w s = Inr s' \<and> s' \<noteq> s \<and>
           history s' = slice0 (history s) (historyIndex s + 1) @ [w] \<and>
           historyIndex s' = int (length (history s')) - 1 \<and>
           currentTopic s' = Some w"
    if "w \<in> set ?W" and "lc w \<noteq> lc cur" for w
  proof -
    let ?s' = "s\<lparr>history := slice0 (history s) (historyIndex s + 1) @ [w],
                   historyIndex := int (length (slice0 (history s) (historyIndex s + 1))),
                   currentTopic := Some w\<rparr>"
    from that(2) have "w \<noteq> cur" by auto
    have "?s' \<noteq> s"
    proof
      assume "?s' = s"
      then have "currentTopic ?s' = currentTopic s" by (rule arg_cong)
      with assms(2) \<open>w \<noteq> cur\<close> show False by simp
    qed
    moreover from plain [OF that(1)] have "changeTopic lc w s = Inr ?s'"
      by (intro changeTopic_word [OF assms(2) _ _ that(2)]) simp_all
    ultimately show ?thesis by simp
  qed
  show ?thesis
  proof (cases "lc (?W ! ?k) = lc cur")
    case False
    have "handleRandom lc m e s = changeTopic lc (?W ! ?k) s"
      using pick assms(2) False by (simp add: handleRandom_def)
    with push [OF mem(1) False] obtain s' where
      "handleRandom lc m e s = Inr s'" "s' \<noteq> s"
      "history s' = slice0 (history s) (historyIndex s + 1) @ [?W ! ?k]"
      "historyIndex s' = int (length (history s')) - 1"
      "currentTopic s' = Some (?W ! ?k)"
      by auto
    with False mem(1) show ?thesis
      by (intro exI [of _ "?W ! ?k"] exI [of _ s']) simp
  next
    case True
    have "findIndex (\<lambda>w. lc w = lc (?W ! ?k)) ?W
          = findIndex (\<lambda>w. toLowerCaseAscii w = toLowerCaseAscii (?W ! ?k)) ?W"
      by (rule findIndex_cong) (simp add: lc mem(1))
    also have "\<dots> = int ?k"
      using dist k by (rule findIndex_distinct)
    finally have ci: "findIndex (\<lambda>w. lc w = lc (?W ! ?k)) ?W = int ?k" .
    have "(int k + 1) mod int n = int ((k + 1) mod n)" for k n :: nat
      by (simp add: zmod_int add.commute)
    then have "(int ?k + 1) mod int ?n = int ?next" .
    with nx have nextw: "jsIndex ?W ((int ?k + 1) mod int ?n) = Some (?W ! ?next)"
      by (simp only: jsIndex_def) simp
    have hr: "handleRandom lc m e s = changeTopic lc (?W ! ?next) s"
      using pick assms(2) True ci nextw by (simp add: handleRandom_def Let_def)
    from n k have "?next \<noteq> ?k"
      by (cases "?k = 133") simp_all
    with dist k nx have "toLowerCaseAscii (?W ! ?next) \<noteq> toLowerCaseAscii (?W ! ?k)"
      by (simp add: distinct_conv_nth)
    then have "lc (?W ! ?next) \<noteq> lc (?W ! ?k)"
      by (simp only: lc [OF mem(1)] lc [OF mem(2)] not_False_eq_True)
    with True have diff: "lc (?W ! ?next) \<noteq> lc cur"
      by (simp only:) simp
    from push [OF mem(2) diff] hr obtain s' where
      "handleRandom lc m e s = Inr s'" "s' \<noteq> s"
      "history s' = slice0 (history s) (historyIndex s + 1) @ [?W ! ?next]"
      "historyIndex s' = int (length (history s')) - 1"
      "currentTopic s' = Some (?W ! ?next)"
      by auto
    with True diff mem(2) show ?thesis
      by (intro exI [of _ "?W ! ?next"] exI [of _ s']) simp
  qed
qed


theorem handleRandom_pushes_witness:
  "isRandomValue 168044762215317 52 \<and>
   currentTopic \<lparr>history = [lit ''CLARITY''], historyIndex = 0,
                 currentTopic = Some (lit ''CLARITY'')\<rparr> = Some (lit ''CLARITY'') \<and>
   handleRandom toLowerCaseAscii 168044762215317 52
     \<lparr>history = [lit ''CLARITY''], historyIndex = 0, currentTopic = Some (lit ''CLARITY'')\<rparr>
   = Inr \<lparr>history = [lit ''CLARITY'', lit ''Ambiguity''], historyIndex = 1,
          currentTopic = Some (lit ''Ambiguity'')\<rparr>"
proof -
  have v: "isRandomValue 168044762215317 52"
    by (simp add: isRandomValue_def)
  have idx: "floorOfProduct 168044762215317 52 (length PREDEFINED_WORDS) = 5"
    using rounding_example by (simp only: words_length)
  have "handleRandom toLowerCaseAscii 168044762215317 52
     \<lparr>history = [lit ''CLARITY''], historyIndex = 0, currentTopic = Some (lit ''CLARITY'')\<rparr>
   = Inr \<lparr>history = [lit ''CLARITY'', lit ''Ambiguity''], historyIndex = 1,
          currentTopic = Some (lit ''Ambiguity'')\<rparr>"
    unfolding handleRandom_def UNIQUE_WORDS_eq idx by code_simp
  with v handleRandom_pushes [OF v, of
      "\<lparr>history = [lit ''CLARITY''], historyIndex = 0, currentTopic = Some (lit ''CLARITY'')\<rparr>"
      "lit ''CLARITY''" toLowerCaseAscii]
  show ?thesis by simp
qed

section \<open>Properties of the fallback art\<close>


lemma splitLines_single: "0x000A \<notin> set a \<Longrightarrow> splitLines a = [a]"
  by (induction a) simp_all

lemma splitLines_append:
  "0x000A \<notin> set a \<Longrightarrow> splitLines (a @ 0x000A # b) = a # splitLines b"
  by (induction a) simp_all

lemma length_displayableTopic: "length (displayableTopic topic) = min (length topic) 20"
  by (simp add: displayableTopic_def lit_def)

lemma lf_displayableTopic:
  "0x000A \<notin> set topic \<Longrightarrow> 0x000A \<notin> set (displayableTopic topic)"
  by (auto simp: displayableTopic_def lit_def dest: in_set_takeD)

lemma art_createFallbackArt:
  "art (createFallbackArt topic) =
     (0x250C # replicate (length (displayableTopic topic) + 2) 0x2500 @ [0x2510]) @ [0x000A] @
     (0x2502 # 0x0020 # displayableTopic topic @ [0x0020, 0x2502]) @ [0x000A] @
     (0x2514 # replicate (length (displayableTopic topic) + 2) 0x2500 @ [0x2518])"
  by (simp add: createFallbackArt_def displayableTopic_def Let_def lit_def)

text \<open>
  Claim C8. The topic is shown unchanged when it has at most 20 code units, and as its
  first 17 code units followed by three dots when it is longer, so never with more than
  20. The art is three strings joined by line feeds: the top border, the shown topic
  with one space and one vertical bar on each side, and the bottom border; each border
  is its two corners around as many horizontal dashes as the shown topic with its two
  spaces has code units. When the topic holds no line feed these are the three lines of
  the art.
\<close>

theorem fallback_art_box:
  "(length topic \<le> 20 \<longrightarrow> displayableTopic topic = topic) \<and>
   (20 < length topic \<longrightarrow> displayableTopic topic = take 17 topic @ lit ''...'') \<and>
   length (displayableTopic topic) = min (length topic) 20 \<and>
   art (createFallbackArt topic) =
     (0x250C # replicate (length (displayableTopic topic) + 2) 0x2500 @ [0x2510]) @ [0x000A] @
     (0x2502 # 0x0020 # displayableTopic topic @ [0x0020, 0x2502]) @ [0x000A] @
     (0x2514 # replicate (length (displayableTopic topic) + 2) 0x2500 @ [0x2518]) \<and>
   (0x000A \<notin> set topic \<longrightarrow>
      splitLines (art (createFallbackArt topic)) =
        [0x250C # replicate (length (displayableTopic topic) + 2) 0x2500 @ [0x2510],
         0x2502 # 0x0020 # displayableTopic topic @ [0x0020, 0x2502],
         0x2514 # replicate (length (displayableTopic topic) + 2) 0x2500 @ [0x2518]])"
proof -
  let ?d = "displayableTopic topic"
  let ?top = "0x250C # replicate (length ?d + 2) 0x2500 @ [0x2510 :: 16 word]"
  let ?mid = "0x2502 # 0x0020 # ?d @ [0x0020, 0x2502 :: 16 word]"
  let ?bot = "0x2514 # replicate (length ?d + 2) 0x2500 @ [0x2518 :: 16 word]"
  have a: "length topic \<le> 20 \<longrightarrow> ?d = topic"
    and b: "20 < length topic \<longrightarrow> ?d = take 17 topic @ lit ''...''"
    by (simp_all add: displayableTopic_def)
  have lines: "splitLines (?top @ [0x000A] @ ?mid @ [0x000A] @ ?bot) = [?top, ?mid, ?bot]"
    if "0x000A \<notin> set topic"
  proof -
    from lf_displayableTopic [OF that] have nd: "0x000A \<notin> set ?d" .
    have t: "0x000A \<notin> set ?top" and bt: "0x000A \<notin> set ?bot" by simp_all
    from nd have m: "0x000A \<notin> set ?mid" by simp
    have "splitLines (?top @ 0x000A # (?mid @ 0x000A # ?bot)) = ?top # splitLines (?mid @ 0x000A # ?bot)"
      using t by (rule splitLines_append)
    also have "splitLines (?mid @ 0x000A # ?bot) = ?mid # splitLines ?bot"
      using m by (rule splitLines_append)
    also have "splitLines ?bot = [?bot]"
      using bt by (rule splitLines_single)
    finally show ?thesis by simp
  qed
  have c: "length ?d = min (length topic) 20"
    by (rule length_displayableTopic)
  have d: "art (createFallbackArt topic) = ?top @ [0x000A] @ ?mid @ [0x000A] @ ?bot"
    by (rule art_createFallbackArt)
  have e: "0x000A \<notin> set topic \<longrightarrow>
      splitLines (art (createFallbackArt topic)) = [?top, ?mid, ?bot]"
  proof
    assume "0x000A \<notin> set topic"
    from lines [OF this] show "splitLines (art (createFallbackArt topic)) = [?top, ?mid, ?bot]"
      by (simp only: d)
  qed
  from a b c d e show ?thesis by (intro conjI)
qed

theorem fallback_art_box_witness:
  "length (lit ''Entropy'') \<le> 20 \<and> 0x000A \<notin> set (lit ''Entropy'') \<and>
   displayableTopic (lit ''Entropy'') = lit ''Entropy'' \<and>
   splitLines (art (createFallbackArt (lit ''Entropy''))) =
     [0x250C # replicate (length (lit '' Entropy '')) 0x2500 @ [0x2510],
      0x2502 # lit '' Entropy '' @ [0x2502],
      0x2514 # replicate (length (lit '' Entropy '')) 0x2500 @ [0x2518]] \<and>
   20 < length (lit ''Journey and destination'') \<and>
   displayableTopic (lit ''Journey and destination'') = lit ''Journey and desti...''"
  using fallback_art_box [of "lit ''Entropy''"] fallback_art_box [of "lit ''Journey and destination''"]
  by (simp add: lit_def)

section \<open>Properties of the structured answer\<close>

lemma getStructuredAnswer_Inr:
  "getStructuredAnswer apiKeySet topic resp = Inr v \<longleftrightarrow>
     apiKeySet \<and> resp = Parsed v \<and>
     truthy (getMember v (lit ''explanation'')) \<and>
     truthy (getMember v (lit ''suggestion'')) \<and>
     isArray (getMember v (lit ''links''))"
  by (cases resp) (auto simp: getStructuredAnswer_def)

text \<open>
  Claim C9, as stated, fails: a response whose three links have a title and no URL lacks
  a required field, and \<open>getStructuredAnswer\<close> returns it.
\<close>

theorem structured_answer_counterexample:
  "\<not> hasRequiredShape answerWithoutUrls \<and>
   getStructuredAnswer True (lit ''Entropy'') (Parsed answerWithoutUrls) = Inr answerWithoutUrls"
  by (simp add: hasRequiredShape_def isLinkShape_def answerWithoutUrls_def getStructuredAnswer_def lit_def)

text \<open>
  Claim C9, amended. \<open>getStructuredAnswer\<close> returns a value exactly when the API key is
  set, the response text parses, and the parsed value has a truthy \<open>explanation\<close>, a truthy
  \<open>suggestion\<close> and an array \<open>links\<close>; it then returns the parsed value as it is. In every
  other case it raises: in particular for a rejected request, a missing or unparsable
  text, and a parsed value in which one of the three members is missing. The number of
  links and the members of each link are not looked at.
\<close>

theorem structured_answer_check:
  "(getStructuredAnswer apiKeySet topic resp = Inr v \<longleftrightarrow>
      apiKeySet \<and> resp = Parsed v \<and>
      truthy (getMember v (lit ''explanation'')) \<and>
      truthy (getMember v (lit ''suggestion'')) \<and>
      isArray (getMember v (lit ''links''))) \<and>
   (resp \<noteq> Parsed v \<longrightarrow> getStructuredAnswer apiKeySet topic resp \<noteq> Inr v) \<and>
   (\<not> truthy (getMember v (lit ''explanation'')) \<or>
    \<not> truthy (getMember v (lit ''suggestion'')) \<or>
    \<not> isArray (getMember v (lit ''links'')) \<longrightarrow>
      (\<exists>e. getStructuredAnswer apiKeySet topic (Parsed v) = Inl e))"
proof -
  have "\<exists>e. getStructuredAnswer apiKeySet topic (Parsed v) = Inl e"
    if "\<not> truthy (getMember v (lit ''explanation'')) \<or>
        \<not> truthy (getMember v (lit ''suggestion'')) \<or>
        \<not> isArray (getMember v (lit ''links''))"
  proof (cases "getStructuredAnswer apiKeySet topic (Parsed v)")
    case (Inr w)
    then have "truthy (getMember w (lit ''explanation'')) \<and>
      truthy (getMember w (lit ''suggestion'')) \<and> isArray (getMember w (lit ''links'')) \<and> w = v"
      by (auto simp: getStructuredAnswer_Inr)
    with that show ?thesis by blast
  qed simp
  then show ?thesis
    by (simp add: getStructuredAnswer_Inr)
qed

theorem structured_answer_check_witness:
  "\<not> truthy (getMember (JObject [(lit ''explanation'', JString (lit ''x'')),
                                  (lit ''links'', JArray [])]) (lit ''suggestion'')) \<and>
   getStructuredAnswer True (lit ''Entropy'')
     (Parsed (JObject [(lit ''explanation'', JString (lit ''x'')), (lit ''links'', JArray [])]))
   = Inl (CouldNotGenerateContent (lit ''Entropy'') InvalidStructure) \<and>
   Unparsable \<noteq> Parsed JNull \<and>
   getStructuredAnswer True (lit ''Entropy'') Unparsable \<noteq> Inr JNull"
  using structured_answer_check [of True "lit ''Entropy''"
      "Parsed (JObject [(lit ''explanation'', JString (lit ''x'')), (lit ''links'', JArray [])])"
      "JObject [(lit ''explanation'', JString (lit ''x'')), (lit ''links'', JArray [])]"]
    structured_answer_check [of True "lit ''Entropy''" Unparsable JNull]
  by (simp add: getStructuredAnswer_def lit_def)

end
